theory Spec2Isabelle
  imports Main "HOL-Library.Word" "HOL-Library.Sublist" "HOL-Library.Multiset"
begin

unbundle bit_operations_syntax

section \<open>The digest accumulator: \<^verbatim>\<open>hashlib.md5\<close>\<close>

text \<open>
  \<^verbatim>\<open>get_file_hash\<close> uses three operations of the standard library's MD5 object:
  \<^verbatim>\<open>hashlib.md5()\<close>, \<^verbatim>\<open>hasher.update(chunk)\<close> and \<^verbatim>\<open>hasher.hexdigest()\<close>.
  The object is modelled after RFC 1321: four 32-bit chaining words, the bytes not yet
  forming a whole 64-byte block, and the number of bytes fed so far.
\<close>

type_synonym byte = "8 word"
type_synonym u32 = "32 word"
type_synonym md5_state = "u32 \<times> u32 \<times> u32 \<times> u32"

definition md5_K :: "u32 list" where
  "md5_K =
    [0xd76aa478, 0xe8c7b756, 0x242070db, 0xc1bdceee, 0xf57c0faf, 0x4787c62a, 0xa8304613, 0xfd469501,
     0x698098d8, 0x8b44f7af, 0xffff5bb1, 0x895cd7be, 0x6b901122, 0xfd987193, 0xa679438e, 0x49b40821,
     0xf61e2562, 0xc040b340, 0x265e5a51, 0xe9b6c7aa, 0xd62f105d, 0x02441453, 0xd8a1e681, 0xe7d3fbc8,
     0x21e1cde6, 0xc33707d6, 0xf4d50d87, 0x455a14ed, 0xa9e3e905, 0xfcefa3f8, 0x676f02d9, 0x8d2a4c8a,
     0xfffa3942, 0x8771f681, 0x6d9d6122, 0xfde5380c, 0xa4beea44, 0x4bdecfa9, 0xf6bb4b60, 0xbebfbc70,
     0x289b7ec6, 0xeaa127fa, 0xd4ef3085, 0x04881d05, 0xd9d4d039, 0xe6db99e5, 0x1fa27cf8, 0xc4ac5665,
     0xf4292244, 0x432aff97, 0xab9423a7, 0xfc93a039, 0x655b59c3, 0x8f0ccc92, 0xffeff47d, 0x85845dd1,
     0x6fa87e4f, 0xfe2ce6e0, 0xa3014314, 0x4e0811a1, 0xf7537e82, 0xbd3af235, 0x2ad7d2bb, 0xeb86d391]"

definition md5_S :: "nat list" where
  "md5_S =
    [7, 12, 17, 22, 7, 12, 17, 22, 7, 12, 17, 22, 7, 12, 17, 22,
     5, 9, 14, 20, 5, 9, 14, 20, 5, 9, 14, 20, 5, 9, 14, 20,
     4, 11, 16, 23, 4, 11, 16, 23, 4, 11, 16, 23, 4, 11, 16, 23,
     6, 10, 15, 21, 6, 10, 15, 21, 6, 10, 15, 21, 6, 10, 15, 21]"

definition md5_F :: "u32 \<Rightarrow> u32 \<Rightarrow> u32 \<Rightarrow> u32" where
  "md5_F x y z = (x AND y) OR (NOT x AND z)"

definition md5_G :: "u32 \<Rightarrow> u32 \<Rightarrow> u32 \<Rightarrow> u32" where
  "md5_G x y z = (x AND z) OR (y AND NOT z)"

definition md5_H :: "u32 \<Rightarrow> u32 \<Rightarrow> u32 \<Rightarrow> u32" where
  "md5_H x y z = x XOR y XOR z"

definition md5_I :: "u32 \<Rightarrow> u32 \<Rightarrow> u32 \<Rightarrow> u32" where
  "md5_I x y z = y XOR (x OR NOT z)"

text \<open>Four bytes, least significant first, as one 32-bit word; and back.\<close>

definition le_word :: "byte list \<Rightarrow> u32" where
  "le_word bs = foldr (\<lambda>b w. push_bit 8 w OR ucast b) bs 0"

definition word_le_bytes :: "u32 \<Rightarrow> byte list" where
  "word_le_bytes w = map (\<lambda>i. ucast (drop_bit (8 * i) w)) [0, 1, 2, 3]"

definition block_words :: "byte list \<Rightarrow> u32 list" where
  "block_words blk = map (\<lambda>i. le_word (take 4 (drop (4 * i) blk))) [0..<16]"

text \<open>One of the 64 steps of the compression function, on the words \<open>m\<close> of the block.\<close>

definition md5_step :: "u32 list \<Rightarrow> nat \<Rightarrow> md5_state \<Rightarrow> md5_state" where
  "md5_step m i st =
     (case st of (a, b, c, d) \<Rightarrow>
        let (f, g) =
              (if i < 16 then (md5_F b c d, i)
               else if i < 32 then (md5_G b c d, (5 * i + 1) mod 16)
               else if i < 48 then (md5_H b c d, (3 * i + 5) mod 16)
               else (md5_I b c d, (7 * i) mod 16));
            t = a + f + md5_K ! i + m ! g
        in (d, b + word_rotl (md5_S ! i) t, b, c))"

definition md5_compress :: "md5_state \<Rightarrow> byte list \<Rightarrow> md5_state" where
  "md5_compress st blk =
     (case st of (a0, b0, c0, d0) \<Rightarrow>
        case fold (md5_step (block_words blk)) [0..<64] st of (a, b, c, d) \<Rightarrow>
          (a0 + a, b0 + b, c0 + c, d0 + d))"

record md5_ctx =
  chain :: md5_state
  pending :: "byte list"
  fed :: nat

definition md5_new :: md5_ctx where
  "md5_new = \<lparr>chain = (0x67452301, 0xefcdab89, 0x98badcfe, 0x10325476), pending = [], fed = 0\<rparr>"

text \<open>Whole 64-byte blocks are compressed as soon as they are complete.\<close>

function md5_absorb :: "md5_state \<Rightarrow> byte list \<Rightarrow> md5_state \<times> byte list" where
  "md5_absorb st buf =
     (if 64 \<le> length buf then md5_absorb (md5_compress st (take 64 buf)) (drop 64 buf)
      else (st, buf))"
  by pat_completeness auto
termination
  by (relation "measure (\<lambda>(st, buf). length buf)") auto

declare md5_absorb.simps [simp del]

definition md5_update :: "md5_ctx \<Rightarrow> byte list \<Rightarrow> md5_ctx" where
  "md5_update h data =
     (case md5_absorb (chain h) (pending h @ data) of (st, buf) \<Rightarrow>
        \<lparr>chain = st, pending = buf, fed = fed h + length data\<rparr>)"

text \<open>
  Padding: one byte 0x80, zero bytes up to 56 modulo 64, and the number of message bits
  as a 64-bit little-endian integer.
\<close>

definition md5_padding :: "nat \<Rightarrow> byte list" where
  "md5_padding n =
     0x80 # replicate ((119 - n mod 64) mod 64) 0
       @ map (\<lambda>i. ucast (drop_bit (8 * i) (of_nat (8 * n) :: 64 word))) [0..<8]"

definition md5_digest :: "md5_ctx \<Rightarrow> byte list" where
  "md5_digest h =
     (case fst (md5_absorb (chain h) (pending h @ md5_padding (fed h))) of (a, b, c, d) \<Rightarrow>
        word_le_bytes a @ word_le_bytes b @ word_le_bytes c @ word_le_bytes d)"

definition hex_digit :: "nat \<Rightarrow> char" where
  "hex_digit n = ''0123456789abcdef'' ! (n mod 16)"

definition hex_byte :: "byte \<Rightarrow> string" where
  "hex_byte b = [hex_digit (unat b div 16), hex_digit (unat b mod 16)]"

definition md5_hexdigest :: "md5_ctx \<Rightarrow> string" where
  "md5_hexdigest h = concat (map hex_byte (md5_digest h))"


section \<open>The reference digest: hash the whole content at once\<close>

text \<open>
  The specification contrasts the chunked loop with "load whole file then hash". That
  reference is RFC 1321 read literally: pad the whole message, cut it into 64-byte
  blocks, and run the compression function over the blocks from the initial chaining
  value. It has no buffer and no incremental state.
\<close>

function blocks64 :: "byte list \<Rightarrow> byte list list" where
  "blocks64 buf =
     (if 64 \<le> length buf then take 64 buf # blocks64 (drop 64 buf) else [])"
  by pat_completeness auto
termination
  by (relation "measure length") auto

declare blocks64.simps [simp del]

definition md5_oneshot :: "byte list \<Rightarrow> byte list" where
  "md5_oneshot msg =
     (case fold (\<lambda>blk st. md5_compress st blk)
             (blocks64 (msg @ md5_padding (length msg))) (chain md5_new) of
        (a, b, c, d) \<Rightarrow>
          word_le_bytes a @ word_le_bytes b @ word_le_bytes c @ word_le_bytes d)"

definition hash_whole_file :: "byte list \<Rightarrow> string" where
  "hash_whole_file content = concat (map hex_byte (md5_oneshot content))"

section \<open>The filesystem as the scan sees it\<close>

text \<open>
  A path is its list of components, relative to the working directory (\<^verbatim>\<open>Path(".")\<close>
  has none). The filesystem is the listing of its entries, in the order in which
  \<^verbatim>\<open>rglob\<close> meets them. A regular file is readable (\<open>Regular\<close>), or its
  \<^verbatim>\<open>open\<close> raises (\<open>Unopenable\<close>: permission denied, or gone since it was listed),
  or it opens and a read raises once the readable bytes are used up (\<open>Faulty\<close>).
  An entry may be listed although \<^verbatim>\<open>stat\<close> raises on it (\<open>Unstatable\<close>: an entry
  of a directory that can be listed but not searched), and a listed directory may raise
  when it is scanned (\<open>Unscannable\<close>: no permission, or gone since it was listed).
  The world also logs every \<^verbatim>\<open>open\<close> call with its mode.
\<close>

type_synonym path = "string list"

datatype io_error =
  PermissionError | FileNotFoundError | NotADirectoryError | IsADirectoryError | OSError
  | ValueError

datatype node =
  Regular "byte list"
  | Unopenable io_error
  | Faulty "byte list" io_error
  | Unstatable io_error
  | Directory
  | Unscannable io_error
  | Special

record world =
  fs :: "(path \<times> node) list"
  open_log :: "(path \<times> string) list"

record file_obj =
  data :: "byte list"
  pos :: nat
  fault :: "io_error option"

text \<open>
  \<^verbatim>\<open>pathlib\<close> answers \<open>False\<close> where \<^verbatim>\<open>stat\<close> fails because the entry is
  missing (\<^verbatim>\<open>_ignore_error\<close>: \<^verbatim>\<open>ENOENT\<close>, \<^verbatim>\<open>ENOTDIR\<close>, and two errors that
  have no class of their own) and raises every other \<^verbatim>\<open>OSError\<close>, a
  \<^verbatim>\<open>PermissionError\<close> among them.
\<close>

definition ignore_error :: "io_error \<Rightarrow> bool" where
  "ignore_error e = (e = FileNotFoundError \<or> e = NotADirectoryError)"

text \<open>
  \<^verbatim>\<open>Path.is_file()\<close>: whether the path is an existing regular file; the error of
  \<^verbatim>\<open>stat\<close> is raised unless it is ignored, or is a \<^verbatim>\<open>ValueError\<close>.
\<close>

definition is_file :: "world \<Rightarrow> path \<Rightarrow> io_error + bool" where
  "is_file w p =
     (case map_of (fs w) p of
        Some (Regular _) \<Rightarrow> Inr True
      | Some (Unopenable _) \<Rightarrow> Inr True
      | Some (Faulty _ _) \<Rightarrow> Inr True
      | Some (Unstatable e) \<Rightarrow> if ignore_error e \<or> e = ValueError then Inr False else Inl e
      | _ \<Rightarrow> Inr False)"

text \<open>
  \<^verbatim>\<open>Path.is_dir()\<close>, with the same treatment of errors. The working directory, the
  path without components, is a directory.
\<close>

definition is_dir :: "world \<Rightarrow> path \<Rightarrow> io_error + bool" where
  "is_dir w p =
     (if p = [] then Inr True
      else
        (case map_of (fs w) p of
           Some Directory \<Rightarrow> Inr True
         | Some (Unscannable _) \<Rightarrow> Inr True
         | Some (Unstatable e) \<Rightarrow> if ignore_error e \<or> e = ValueError then Inr False else Inl e
         | _ \<Rightarrow> Inr False))"

text \<open>
  \<^verbatim>\<open>Path(directory).rglob("*")\<close>: every entry strictly below the directory, files and
  directories alike; nothing when the root is not a directory. It is a generator:
  \<open>rglob\<close> gives the paths it yields and the exception that ends it, if any. A
  directory that may not be scanned is passed over in silence
  (\<^verbatim>\<open>except PermissionError: return\<close>); any other error of a scan leaves the generator,
  after the directory itself has been yielded.
\<close>

fun walk :: "(path \<times> node) list \<Rightarrow> path list \<times> io_error option" where
  "walk [] = ([], None)"
| "walk ((p, n) # rest) =
     (case n of
        Unscannable e \<Rightarrow>
          if e = PermissionError then (case walk rest of (ps, raised) \<Rightarrow> (p # ps, raised))
          else ([p], Some e)
      | _ \<Rightarrow> (case walk rest of (ps, raised) \<Rightarrow> (p # ps, raised)))"

definition rglob :: "world \<Rightarrow> path \<Rightarrow> path list \<times> io_error option" where
  "rglob w directory =
     (case is_dir w directory of
        Inl e \<Rightarrow> ([], Some e)
      | Inr dir \<Rightarrow>
          if dir then
            (case map_of (fs w) directory of
               Some (Unscannable e) \<Rightarrow> ([], if e = PermissionError then None else Some e)
             | _ \<Rightarrow> walk (filter (\<lambda>(p, n). strict_prefix directory p) (fs w)))
          else ([], None))"

text \<open>
  The builtin \<^verbatim>\<open>open(path, mode)\<close>. Mode \<^verbatim>\<open>"rb"\<close> reads and leaves the filesystem
  as it is; mode \<^verbatim>\<open>"wb"\<close> creates the file or truncates it.
\<close>

definition py_open :: "world \<Rightarrow> path \<Rightarrow> string \<Rightarrow> (io_error + file_obj) \<times> world" where
  "py_open w p mode =
     (let w' = w\<lparr>open_log := open_log w @ [(p, mode)]\<rparr> in
      if mode = ''rb'' then
        (case map_of (fs w) p of
           None \<Rightarrow> (Inl FileNotFoundError, w')
         | Some (Regular bs) \<Rightarrow> (Inr \<lparr>data = bs, pos = 0, fault = None\<rparr>, w')
         | Some (Unopenable e) \<Rightarrow> (Inl e, w')
         | Some (Faulty bs e) \<Rightarrow> (Inr \<lparr>data = bs, pos = 0, fault = Some e\<rparr>, w')
         | Some (Unstatable e) \<Rightarrow> (Inl e, w')
         | Some Directory \<Rightarrow> (Inl IsADirectoryError, w')
         | Some (Unscannable e) \<Rightarrow> (Inl e, w')
         | Some Special \<Rightarrow> (Inl OSError, w'))
      else if mode = ''wb'' then
        (case map_of (fs w) p of
           Some Directory \<Rightarrow> (Inl IsADirectoryError, w')
         | Some (Unopenable e) \<Rightarrow> (Inl e, w')
         | Some (Unstatable e) \<Rightarrow> (Inl e, w')
         | Some (Unscannable e) \<Rightarrow> (Inl e, w')
         | Some Special \<Rightarrow> (Inl OSError, w')
         | _ \<Rightarrow> (Inr \<lparr>data = [], pos = 0, fault = None\<rparr>,
                 w'\<lparr>fs := (p, Regular []) # filter (\<lambda>(q, _). q \<noteq> p) (fs w)\<rparr>))
      else (Inl ValueError, w'))"

text \<open>
  \<^verbatim>\<open>f.read(n)\<close> on a binary file: the next \<open>n\<close> bytes, fewer at the end of the file,
  none once the end is reached.
\<close>

definition f_read :: "file_obj \<Rightarrow> nat \<Rightarrow> io_error + (byte list \<times> file_obj)" where
  "f_read f n =
     (let chunk = take n (drop (pos f) (data f)) in
      case fault f of
        Some e \<Rightarrow> if chunk = [] then Inl e else Inr (chunk, f\<lparr>pos := pos f + length chunk\<rparr>)
      | None \<Rightarrow> Inr (chunk, f\<lparr>pos := pos f + length chunk\<rparr>))"

section \<open>\<^verbatim>\<open>get_file_hash\<close>\<close>

text \<open>
  \<^verbatim>\<open>while chunk := f.read(8192): hasher.update(chunk)\<close>: the loop ends at the first
  empty chunk; an exception raised by the read leaves the loop and the function.
\<close>

function hash_chunks :: "file_obj \<Rightarrow> md5_ctx \<Rightarrow> io_error + md5_ctx" where
  "hash_chunks f hasher =
     (case f_read f 8192 of
        Inl e \<Rightarrow> Inl e
      | Inr (chunk, f') \<Rightarrow>
          if chunk \<noteq> [] then hash_chunks f' (md5_update hasher chunk) else Inr hasher)"
  by pat_completeness auto
termination
proof (relation "measure (\<lambda>(f, hasher). length (data f) - pos f)")
  show "wf (measure (\<lambda>(f, hasher). length (data f) - pos f))"
    by simp
next
  fix f :: file_obj and hasher :: md5_ctx and x :: "byte list \<times> file_obj"
    and chunk :: "byte list" and f' :: file_obj
  assume r: "f_read f 8192 = Inr x" and x: "(chunk, f') = x" and ne: "chunk \<noteq> []"
  from r x have c: "chunk = take 8192 (drop (pos f) (data f))"
    and f': "f' = f\<lparr>pos := pos f + length chunk\<rparr>"
    by (auto simp: f_read_def Let_def split: option.splits if_splits)
  from c ne have "pos f < length (data f)"
    by (cases "pos f < length (data f)") auto
  moreover from ne have "1 \<le> length chunk"
    by (cases chunk) auto
  moreover from c have "length chunk \<le> length (data f) - pos f"
    by simp
  ultimately have "length (data f) - (pos f + length chunk) < length (data f) - pos f"
    by arith
  with f' show "((f', md5_update hasher chunk), (f, hasher))
      \<in> measure (\<lambda>(f, hasher). length (data f) - pos f)"
    by simp
qed

declare hash_chunks.simps [simp del]

definition get_file_hash :: "world \<Rightarrow> path \<Rightarrow> (io_error + string) \<times> world" where
  "get_file_hash w filepath =
     (let hasher = md5_new in
      case py_open w filepath ''rb'' of
        (Inl e, w') \<Rightarrow> (Inl e, w')
      | (Inr f, w') \<Rightarrow>
          (case hash_chunks f hasher of
             Inl e \<Rightarrow> (Inl e, w')
           | Inr hasher' \<Rightarrow> (Inr (md5_hexdigest hasher'), w')))"

section \<open>\<^verbatim>\<open>find_duplicates_basic\<close>\<close>

text \<open>
  \<^verbatim>\<open>hash_dict = defaultdict(list)\<close> keeps its keys in the order of their first
  insertion, so it is an association list. \<^verbatim>\<open>hash_dict[h].append(p)\<close> appends to the
  list of an existing key in place, and gives a new key the one-element list, at the end.
\<close>

type_synonym hash_dict = "(string \<times> path list) list"

fun dict_append :: "hash_dict \<Rightarrow> string \<Rightarrow> path \<Rightarrow> hash_dict" where
  "dict_append [] k v = [(k, [v])]"
| "dict_append ((k', vs) # d) k v =
     (if k' = k then (k', vs @ [v]) # d else (k', vs) # dict_append d k v)"

text \<open>
  The body of the \<^verbatim>\<open>for\<close> loop, over the paths that the generator yields; an
  exception of \<^verbatim>\<open>is_file\<close> or of \<^verbatim>\<open>get_file_hash\<close> ends it.
\<close>

fun scan_loop :: "world \<Rightarrow> path list \<Rightarrow> hash_dict \<Rightarrow> (io_error + hash_dict) \<times> world" where
  "scan_loop w [] hash_dict = (Inr hash_dict, w)"
| "scan_loop w (filepath # rest) hash_dict =
     (case is_file w filepath of
        Inl e \<Rightarrow> (Inl e, w)
      | Inr regular \<Rightarrow>
          if regular then
            (case get_file_hash w filepath of
               (Inl e, w') \<Rightarrow> (Inl e, w')
             | (Inr file_hash, w') \<Rightarrow>
                 scan_loop w' rest (dict_append hash_dict file_hash filepath))
          else scan_loop w rest hash_dict)"

text \<open>
  The loop runs over what the generator yields; when the generator then raises, so does
  the function; otherwise the dictionary comprehension is returned.
\<close>

definition find_duplicates_basic :: "world \<Rightarrow> path \<Rightarrow> (io_error + hash_dict) \<times> world" where
  "find_duplicates_basic w directory =
     (case rglob w directory of
        (paths, raised) \<Rightarrow>
          (case scan_loop w paths [] of
             (Inl e, w') \<Rightarrow> (Inl e, w')
           | (Inr hash_dict, w') \<Rightarrow>
               (case raised of
                  Some e \<Rightarrow> (Inl e, w')
                | None \<Rightarrow> (Inr (filter (\<lambda>(h, files). length files > 1) hash_dict), w'))))"

section \<open>The script's report\<close>

text \<open>
  Standard output is the list of the printed lines, one per \<^verbatim>\<open>print\<close> call.
  \<^verbatim>\<open>str\<close> of a relative path joins its components with slashes.
\<close>

fun path_str :: "path \<Rightarrow> string" where
  "path_str [] = ''.''"
| "path_str [c] = c"
| "path_str (c # cs) = c @ ''/'' @ path_str cs"

definition report_lines :: "hash_dict \<Rightarrow> string list" where
  "report_lines duplicates =
     concat (map (\<lambda>(file_hash, files).
        [''Hash:''] @ map (\<lambda>f. '' - '' @ path_str f) files @ [''/n'']) duplicates)"

definition main_prog :: "world \<Rightarrow> (io_error + string list) \<times> world" where
  "main_prog w =
     (case find_duplicates_basic w [] of
        (Inl e, w') \<Rightarrow> (Inl e, w')
      | (Inr duplicates, w') \<Rightarrow> (Inr (report_lines duplicates), w'))"

section \<open>Example trees\<close>

text \<open>
  The scenario of the specification: \<^verbatim>\<open>x/1.txt\<close> and \<^verbatim>\<open>y/2.txt\<close> hold
  \<^verbatim>\<open>hello\<close>, \<^verbatim>\<open>z/3.txt\<close> holds \<^verbatim>\<open>world\<close>.
\<close>

definition hello :: "byte list" where
  "hello = [0x68, 0x65, 0x6c, 0x6c, 0x6f]"

definition world_bytes :: "byte list" where
  "world_bytes = [0x77, 0x6f, 0x72, 0x6c, 0x64]"

definition spec_scenario :: world where
  "spec_scenario =
     \<lparr>fs = [([''x''], Directory), ([''x'', ''1.txt''], Regular hello),
            ([''y''], Directory), ([''y'', ''2.txt''], Regular hello),
            ([''z''], Directory), ([''z'', ''3.txt''], Regular world_bytes)],
      open_log = []\<rparr>"


text \<open>The scenario again, with a file that may not be opened listed before the others.\<close>

definition scenario_with_denied_file :: world where
  "scenario_with_denied_file =
     \<lparr>fs = ([''secret.bin''], Unopenable PermissionError) # fs spec_scenario, open_log = []\<rparr>"

text \<open>
  Two files and a directory that can be listed but not searched, so that \<^verbatim>\<open>stat\<close> on
  its entry raises.
\<close>

definition tree_with_unsearchable_directory :: world where
  "tree_with_unsearchable_directory =
     \<lparr>fs = [([''a.txt''], Regular hello), ([''b.txt''], Regular hello),
            ([''noexec''], Directory), ([''noexec'', ''sub''], Unstatable PermissionError)],
      open_log = []\<rparr>"

text \<open>Two files and a directory that is gone when the traversal comes to scan it.\<close>

definition tree_with_vanished_directory :: world where
  "tree_with_vanished_directory =
     \<lparr>fs = [([''a.txt''], Regular hello), ([''b.txt''], Regular hello),
            ([''tmp''], Unscannable FileNotFoundError)],
      open_log = []\<rparr>"


text \<open>A tree without duplicates: one file.\<close>

definition single_file :: world where
  "single_file = \<lparr>fs = [([''only.txt''], Regular hello)], open_log = []\<rparr>"

section \<open>Notions used to state the properties\<close>

text \<open>A discovered file is readable when it opens and every read of it succeeds.\<close>

definition readable :: "world \<Rightarrow> path \<Rightarrow> bool" where
  "readable w p = (case map_of (fs w) p of Some (Regular _) \<Rightarrow> True | _ \<Rightarrow> False)"

text \<open>
  The exception that the loop body raises on an entry, if any: that of \<^verbatim>\<open>is_file\<close>,
  or that of \<^verbatim>\<open>get_file_hash\<close> on a regular file.
\<close>

definition entry_error :: "world \<Rightarrow> path \<Rightarrow> io_error option" where
  "entry_error w p =
     (case is_file w p of
        Inl e \<Rightarrow> Some e
      | Inr regular \<Rightarrow>
          if regular then
            (case fst (get_file_hash w p) of Inl e \<Rightarrow> Some e | Inr h \<Rightarrow> None)
          else None)"

text \<open>
  The list stored under a fingerprint, empty when the fingerprint is not a key (reading
  the dictionary without inserting).
\<close>

definition bucket :: "hash_dict \<Rightarrow> string \<Rightarrow> path list" where
  "bucket d h = (case map_of d h of None \<Rightarrow> [] | Some files \<Rightarrow> files)"

definition no_empty_bucket :: "hash_dict \<Rightarrow> bool" where
  "no_empty_bucket d = list_all (\<lambda>(h, files). files \<noteq> []) d"


section \<open>The digest is independent of the chunking\<close>

lemma md5_absorb_short: "length buf < 64 \<Longrightarrow> md5_absorb st buf = (st, buf)"
  by (simp add: md5_absorb.simps)

lemma md5_absorb_append:
  "md5_absorb st (xs @ ys) = (case md5_absorb st xs of (st', r) \<Rightarrow> md5_absorb st' (r @ ys))"
proof (induction st xs rule: md5_absorb.induct)
  case (1 st buf)
  show ?case
  proof (cases "64 \<le> length buf")
    case True
    then have "md5_absorb st (buf @ ys) = md5_absorb (md5_compress st (take 64 buf)) (drop 64 buf @ ys)"
      by (subst md5_absorb.simps) simp
    also have "\<dots> = (case md5_absorb (md5_compress st (take 64 buf)) (drop 64 buf) of
                       (st', r) \<Rightarrow> md5_absorb st' (r @ ys))"
      using "1.IH" [OF True] .
    also have "md5_absorb (md5_compress st (take 64 buf)) (drop 64 buf) = md5_absorb st buf"
      using True by (subst (2) md5_absorb.simps) simp
    finally show ?thesis .
  next
    case False
    then show ?thesis by (simp add: md5_absorb_short)
  qed
qed

lemma md5_absorb_rest: "length (snd (md5_absorb st buf)) < 64"
proof (induction st buf rule: md5_absorb.induct)
  case (1 st buf)
  then show ?case
    by (subst md5_absorb.simps) auto
qed

lemma md5_update_append: "md5_update (md5_update h a) b = md5_update h (a @ b)"
proof -
  obtain st r where a: "md5_absorb (chain h) (pending h @ a) = (st, r)"
    by (cases "md5_absorb (chain h) (pending h @ a)")
  have "md5_absorb (chain h) ((pending h @ a) @ b) = md5_absorb st (r @ b)"
    by (subst md5_absorb_append) (simp add: a)
  then show ?thesis
    by (simp add: md5_update_def a split: prod.splits)
qed

lemma md5_update_Nil: "length (pending h) < 64 \<Longrightarrow> md5_update h [] = h"
  by (simp add: md5_update_def md5_absorb_short)

lemma pending_md5_update: "length (pending (md5_update h xs)) < 64"
  using md5_absorb_rest [of "chain h" "pending h @ xs"]
  by (cases "md5_absorb (chain h) (pending h @ xs)") (simp add: md5_update_def)

lemma fst_md5_absorb:
  "fst (md5_absorb st buf) = fold (\<lambda>blk st. md5_compress st blk) (blocks64 buf) st"
proof (induction st buf rule: md5_absorb.induct)
  case (1 st buf)
  show ?case
  proof (cases "64 \<le> length buf")
    case True
    then show ?thesis
      using "1.IH" by (subst md5_absorb.simps, subst blocks64.simps) simp
  next
    case False
    then show ?thesis
      by (subst md5_absorb.simps, subst blocks64.simps) simp
  qed
qed

lemma md5_digest_oneshot: "md5_digest (md5_update md5_new msg) = md5_oneshot msg"
proof -
  obtain st r where a: "md5_absorb (chain md5_new) msg = (st, r)"
    by (cases "md5_absorb (chain md5_new) msg")
  have "md5_absorb (chain md5_new) (msg @ md5_padding (length msg))
      = md5_absorb st (r @ md5_padding (length msg))"
    by (subst md5_absorb_append) (simp add: a)
  then have "fst (md5_absorb st (r @ md5_padding (length msg)))
      = fold (\<lambda>blk st. md5_compress st blk) (blocks64 (msg @ md5_padding (length msg))) (chain md5_new)"
    by (simp add: fst_md5_absorb [symmetric])
  moreover have "md5_update md5_new msg = \<lparr>chain = st, pending = r, fed = length msg\<rparr>"
    using a by (simp add: md5_update_def md5_new_def)
  ultimately show ?thesis
    by (simp add: md5_digest_def md5_oneshot_def)
qed

lemma md5_hexdigest_whole: "md5_hexdigest (md5_update md5_new content) = hash_whole_file content"
  by (simp add: md5_hexdigest_def hash_whole_file_def md5_digest_oneshot)

lemma hash_chunks_sound:
  "fault f = None \<Longrightarrow> length (pending hasher) < 64 \<Longrightarrow>
   hash_chunks f hasher = Inr (md5_update hasher (drop (pos f) (data f)))"
proof (induction f hasher rule: hash_chunks.induct)
  case (1 f hasher)
  let ?rest = "drop (pos f) (data f)"
  let ?chunk = "take 8192 ?rest"
  let ?f' = "f\<lparr>pos := pos f + length ?chunk\<rparr>"
  have r: "f_read f 8192 = Inr (?chunk, ?f')"
    using "1.prems"(1) by (simp add: f_read_def)
  show ?case
  proof (cases "?chunk = []")
    case True
    then have "?rest = []" by simp
    with True r "1.prems" show ?thesis
      by (subst hash_chunks.simps) (simp add: md5_update_Nil)
  next
    case False
    have "hash_chunks ?f' (md5_update hasher ?chunk)
        = Inr (md5_update (md5_update hasher ?chunk) (drop (pos ?f') (data ?f')))"
      using "1.IH" [OF r refl False] "1.prems"(1) pending_md5_update by simp
    also have "drop (pos ?f') (data ?f') = drop 8192 ?rest"
      by (simp add: min_def add.commute) 
    finally have "hash_chunks ?f' (md5_update hasher ?chunk)
        = Inr (md5_update hasher (?chunk @ drop 8192 ?rest))"
      by (simp only: md5_update_append)
    then have "hash_chunks ?f' (md5_update hasher ?chunk) = Inr (md5_update hasher ?rest)"
      by (simp only: append_take_drop_id)
    with r False show ?thesis
      by (subst hash_chunks.simps) simp
  qed
qed

section \<open>What \<^verbatim>\<open>get_file_hash\<close> returns\<close>

lemma readableE: "readable w p \<Longrightarrow> \<exists>c. map_of (fs w) p = Some (Regular c)"
  by (auto simp: readable_def split: option.splits node.splits)

lemma readable_is_file: "readable w p \<Longrightarrow> is_file w p = Inr True"
  by (auto simp: readable_def is_file_def split: option.splits node.splits)

lemma hash_chunks_faulty: "fault f = Some e \<Longrightarrow> hash_chunks f hasher = Inl e"
proof (induction f hasher rule: hash_chunks.induct)
  case (1 f hasher)
  show ?case
  proof (cases "take 8192 (drop (pos f) (data f)) = []")
    case True
    with "1.prems" show ?thesis
      by (subst hash_chunks.simps) (simp add: f_read_def)
  next
    case False
    let ?chunk = "take 8192 (drop (pos f) (data f))"
    let ?f' = "f\<lparr>pos := pos f + length ?chunk\<rparr>"
    have r: "f_read f 8192 = Inr (?chunk, ?f')"
      using "1.prems" False by (simp add: f_read_def)
    have "hash_chunks ?f' (md5_update hasher ?chunk) = Inl e"
      using "1.IH" [OF r refl False] "1.prems" by simp
    with r False show ?thesis
      by (subst hash_chunks.simps) simp
  qed
qed

lemma get_file_hash_regular:
  "map_of (fs w) p = Some (Regular c) \<Longrightarrow>
   get_file_hash w p = (Inr (hash_whole_file c), w\<lparr>open_log := open_log w @ [(p, ''rb'')]\<rparr>)"
proof -
  assume n: "map_of (fs w) p = Some (Regular c)"
  have "length (pending md5_new) < 64"
    by (simp add: md5_new_def)
  then have "hash_chunks \<lparr>data = c, pos = 0, fault = None\<rparr> md5_new = Inr (md5_update md5_new c)"
    using hash_chunks_sound [of "\<lparr>data = c, pos = 0, fault = None\<rparr>" md5_new] by simp
  with n show ?thesis
    by (simp add: get_file_hash_def py_open_def Let_def md5_hexdigest_whole)
qed

lemma snd_get_file_hash:
  "snd (get_file_hash w p) = w\<lparr>open_log := open_log w @ [(p, ''rb'')]\<rparr>"
  by (simp add: get_file_hash_def py_open_def Let_def
      split: option.splits node.splits sum.splits prod.splits)

lemma get_file_hash_Inr_iff:
  "(\<exists>h. fst (get_file_hash w p) = Inr h) \<longleftrightarrow> readable w p"
proof (cases "map_of (fs w) p")
  case None
  then show ?thesis
    by (simp add: get_file_hash_def py_open_def Let_def readable_def)
next
  case (Some n)
  show ?thesis
  proof (cases n)
    case (Regular c)
    with Some show ?thesis
      by (simp add: get_file_hash_regular readable_def)
  qed (use Some in \<open>simp_all add: readable_def get_file_hash_def py_open_def Let_def
        hash_chunks_faulty\<close>)
qed

lemma fst_get_file_hash_cong:
  "fs w1 = fs w2 \<Longrightarrow> fst (get_file_hash w1 p) = fst (get_file_hash w2 p)"
  by (simp add: get_file_hash_def py_open_def Let_def
      split: option.splits node.splits sum.splits prod.splits)

lemma is_file_cong: "fs w1 = fs w2 \<Longrightarrow> is_file w1 p = is_file w2 p"
  by (simp add: is_file_def)

section \<open>The index built by the loop\<close>

lemma bucket_dict_append:
  "bucket (dict_append d k v) h = (if h = k then bucket d h @ [v] else bucket d h)"
  by (induction d k v rule: dict_append.induct) (auto simp: bucket_def)

lemma keys_dict_append:
  "map fst (dict_append d k v) = (if k \<in> set (map fst d) then map fst d else map fst d @ [k])"
  by (induction d k v rule: dict_append.induct) auto

lemma distinct_keys_dict_append:
  "distinct (map fst d) \<Longrightarrow> distinct (map fst (dict_append d k v))"
  by (simp add: keys_dict_append)

lemma no_empty_bucket_dict_append:
  "no_empty_bucket d \<Longrightarrow> no_empty_bucket (dict_append d k v)"
  by (induction d k v rule: dict_append.induct) (auto simp: no_empty_bucket_def)


lemma map_of_bucket:
  "no_empty_bucket d \<Longrightarrow> map_of d h = (if bucket d h = [] then None else Some (bucket d h))"
proof (induction d)
  case Nil
  then show ?case by (simp add: bucket_def)
next
  case (Cons a d)
  then show ?case
    by (cases a) (auto simp: bucket_def no_empty_bucket_def split: option.splits)
qed

declare scan_loop.simps(2) [simp del]

lemma is_file_open_log [simp]: "is_file (w\<lparr>open_log := l\<rparr>) p = is_file w p"
  by (simp add: is_file_def)

lemma readable_open_log [simp]: "readable (w\<lparr>open_log := l\<rparr>) p = readable w p"
  by (simp add: readable_def)

lemma fst_get_file_hash_open_log [simp]:
  "fst (get_file_hash (w\<lparr>open_log := l\<rparr>) p) = fst (get_file_hash w p)"
  by (rule fst_get_file_hash_cong) simp

lemma entry_error_open_log [simp]: "entry_error (w\<lparr>open_log := l\<rparr>) p = entry_error w p"
  by (simp add: entry_error_def split: sum.splits)

text \<open>The four ways in which the loop body can go on an entry.\<close>

lemma entry_cases:
  obtains (stat_error) e where "is_file w p = Inl e"
  | (not_regular) "is_file w p = Inr False"
  | (digested) h where "is_file w p = Inr True" "fst (get_file_hash w p) = Inr h"
  | (read_error) e where "is_file w p = Inr True" "fst (get_file_hash w p) = Inl e"
proof (cases "is_file w p")
  case (Inl e)
  then show ?thesis by (rule stat_error)
next
  case (Inr regular)
  show ?thesis
  proof (cases regular)
    case False
    with Inr show ?thesis by (intro not_regular) simp
  next
    case True
    with Inr have r: "is_file w p = Inr True" by simp
    show ?thesis
    proof (cases "fst (get_file_hash w p)")
      case (Inl e)
      with r show ?thesis by (rule read_error)
    next
      case (Inr h)
      with r show ?thesis by (rule digested)
    qed
  qed
qed

lemma scan_loop_step_file:
  "is_file w p = Inr True \<Longrightarrow> fst (get_file_hash w p) = Inr h \<Longrightarrow>
   scan_loop w (p # ps) d = scan_loop (w\<lparr>open_log := open_log w @ [(p, ''rb'')]\<rparr>) ps (dict_append d h p)"
  using snd_get_file_hash [of w p]
  by (cases "get_file_hash w p") (simp add: scan_loop.simps(2))

lemma scan_loop_step_error:
  "is_file w p = Inr True \<Longrightarrow> fst (get_file_hash w p) = Inl e \<Longrightarrow>
   scan_loop w (p # ps) d = (Inl e, w\<lparr>open_log := open_log w @ [(p, ''rb'')]\<rparr>)"
  using snd_get_file_hash [of w p]
  by (cases "get_file_hash w p") (simp add: scan_loop.simps(2))

lemma scan_loop_step_skip:
  "is_file w p = Inr False \<Longrightarrow> scan_loop w (p # ps) d = scan_loop w ps d"
  by (simp add: scan_loop.simps(2))

lemma scan_loop_step_stat_error:
  "is_file w p = Inl e \<Longrightarrow> scan_loop w (p # ps) d = (Inl e, w)"
  by (simp add: scan_loop.simps(2))

lemma scan_loop_fs: "fs (snd (scan_loop w ps d)) = fs w"
proof (induction ps arbitrary: w d)
  case Nil
  show ?case by simp
next
  case (Cons p ps)
  show ?case
  proof (cases rule: entry_cases [of w p])
    case (stat_error e)
    then show ?thesis by (simp add: scan_loop_step_stat_error)
  next
    case not_regular
    then show ?thesis using Cons.IH by (simp add: scan_loop_step_skip)
  next
    case (digested h)
    show ?thesis
      by (simp only: scan_loop_step_file [OF digested] Cons.IH) simp
  next
    case (read_error e)
    show ?thesis by (simp only: scan_loop_step_error [OF read_error]) simp
  qed
qed

lemma scan_loop_open_log:
  "\<exists>opened. set opened \<subseteq> set ps \<and>
     open_log (snd (scan_loop w ps d)) = open_log w @ map (\<lambda>p. (p, ''rb'')) opened"
proof (induction ps arbitrary: w d)
  case Nil
  show ?case by simp
next
  case (Cons p ps)
  show ?case
  proof (cases rule: entry_cases [of w p])
    case (stat_error e)
    show ?thesis
      by (rule exI [of _ "[]"]) (simp add: scan_loop_step_stat_error [OF stat_error])
  next
    case not_regular
    from Cons.IH [of w d] obtain opened where "set opened \<subseteq> set ps"
      "open_log (snd (scan_loop w ps d)) = open_log w @ map (\<lambda>p. (p, ''rb'')) opened"
      by blast
    with not_regular show ?thesis
      by (intro exI [of _ opened]) (auto simp: scan_loop_step_skip)
  next
    case (read_error e)
    show ?thesis
      by (rule exI [of _ "[p]"]) (simp add: scan_loop_step_error [OF read_error])
  next
    case (digested h)
    let ?w = "w\<lparr>open_log := open_log w @ [(p, ''rb'')]\<rparr>"
    from Cons.IH [of ?w "dict_append d h p"] obtain opened where o: "set opened \<subseteq> set ps"
      "open_log (snd (scan_loop ?w ps (dict_append d h p)))
         = open_log ?w @ map (\<lambda>p. (p, ''rb'')) opened"
      by blast
    show ?thesis
      by (rule exI [of _ "p # opened"]) (use o in \<open>auto simp: scan_loop_step_file [OF digested]\<close>)
  qed
qed

lemma scan_loop_Cons_Inr:
  assumes "scan_loop w (p # ps) d = (Inr idx, w')"
  obtains (skip) "is_file w p = Inr False" "scan_loop w ps d = (Inr idx, w')"
  | (hashed) h where "is_file w p = Inr True" "fst (get_file_hash w p) = Inr h"
      "scan_loop (w\<lparr>open_log := open_log w @ [(p, ''rb'')]\<rparr>) ps (dict_append d h p) = (Inr idx, w')"
proof (cases rule: entry_cases [of w p])
  case (stat_error e)
  with assms show ?thesis by (simp add: scan_loop_step_stat_error)
next
  case not_regular
  with assms show ?thesis by (intro skip) (simp_all add: scan_loop_step_skip)
next
  case (read_error e)
  with assms show ?thesis by (simp add: scan_loop_step_error)
next
  case (digested h)
  with assms show ?thesis
    by (intro hashed [of h]) (simp_all add: scan_loop_step_file)
qed

text \<open>What a completed loop has done.\<close>

lemma scan_loop_Inr_no_error:
  "scan_loop w ps d = (Inr idx, w') \<Longrightarrow> p \<in> set ps \<Longrightarrow> entry_error w p = None"
proof (induction ps arbitrary: w d)
  case Nil
  then show ?case by simp
next
  case (Cons q ps)
  from Cons.prems(1) show ?case
  proof (cases rule: scan_loop_Cons_Inr)
    case skip
    then have "entry_error w q = None" by (simp add: entry_error_def)
    with Cons.IH [OF skip(2)] Cons.prems show ?thesis by auto
  next
    case (hashed h)
    then have "entry_error w q = None" by (simp add: entry_error_def)
    with Cons.IH [OF hashed(3)] Cons.prems show ?thesis by auto
  qed
qed

lemma scan_loop_Inr_readable:
  "scan_loop w ps d = (Inr idx, w') \<Longrightarrow> p \<in> set ps \<Longrightarrow> is_file w p = Inr True \<Longrightarrow> readable w p"
proof -
  assume s: "scan_loop w ps d = (Inr idx, w')" and p: "p \<in> set ps" and r: "is_file w p = Inr True"
  from s p have "entry_error w p = None" by (rule scan_loop_Inr_no_error)
  with r obtain h where "fst (get_file_hash w p) = Inr h"
    by (cases "fst (get_file_hash w p)") (simp_all add: entry_error_def)
  then show "readable w p"
    using get_file_hash_Inr_iff [of w p] by blast
qed


lemma scan_loop_Inr_bucket:
  "scan_loop w ps d = (Inr idx, w') \<Longrightarrow>
   bucket idx h = bucket d h
     @ filter (\<lambda>p. is_file w p = Inr True \<and> fst (get_file_hash w p) = Inr h) ps"
proof (induction ps arbitrary: w d)
  case Nil
  then show ?case by simp
next
  case (Cons q ps)
  from Cons.prems(1) show ?case
  proof (cases rule: scan_loop_Cons_Inr)
    case skip
    with Cons.IH [OF skip(2)] show ?thesis by simp
  next
    case (hashed k)
    with Cons.IH [OF hashed(3)] show ?thesis by (auto simp: bucket_dict_append)
  qed
qed


lemma scan_loop_Inr_keys:
  "scan_loop w ps d = (Inr idx, w') \<Longrightarrow> distinct (map fst d) \<Longrightarrow> no_empty_bucket d \<Longrightarrow>
   distinct (map fst idx) \<and> no_empty_bucket idx"
proof (induction ps arbitrary: w d)
  case Nil
  then show ?case by simp
next
  case (Cons q ps)
  from Cons.prems(1) show ?case
  proof (cases rule: scan_loop_Cons_Inr)
    case skip
    with Cons.IH [OF skip(2)] Cons.prems show ?thesis by simp
  next
    case (hashed k)
    with Cons.IH [OF hashed(3)] Cons.prems show ?thesis
      by (simp add: distinct_keys_dict_append no_empty_bucket_dict_append)
  qed
qed

text \<open>When the loop completes, and when it does not.\<close>

lemma scan_loop_completes:
  "(\<And>p. p \<in> set ps \<Longrightarrow> entry_error w p = None) \<Longrightarrow> \<exists>idx. fst (scan_loop w ps d) = Inr idx"
proof (induction ps arbitrary: w d)
  case Nil
  show ?case by simp
next
  case (Cons q ps)
  have q: "entry_error w q = None"
    using Cons.prems by simp
  show ?case
  proof (cases rule: entry_cases [of w q])
    case (stat_error e)
    with q show ?thesis by (simp add: entry_error_def)
  next
    case not_regular
    with Cons.IH [of w d] Cons.prems show ?thesis
      by (simp add: scan_loop_step_skip)
  next
    case (read_error e)
    with q show ?thesis by (simp add: entry_error_def)
  next
    case (digested h)
    from Cons.IH [of "w\<lparr>open_log := open_log w @ [(q, ''rb'')]\<rparr>" "dict_append d h q"] Cons.prems
    show ?thesis
      by (simp add: scan_loop_step_file [OF digested])
  qed
qed




section \<open>Digests of the example contents\<close>


lemma hash_whole_file_hello: "hash_whole_file hello = ''5d41402abc4b2a76b9719d911017c592''"
  by code_simp

lemma hash_whole_file_world: "hash_whole_file world_bytes = ''7d793037a0760186574b0282f2f435e7''"
  by code_simp

section \<open>The returned mapping\<close>

lemma map_of_filter_keys:
  "distinct (map fst d) \<Longrightarrow>
   map_of (filter (\<lambda>(h, files). P files) d) h =
     (case map_of d h of None \<Rightarrow> None | Some files \<Rightarrow> if P files then Some files else None)"
proof (induction d)
  case Nil
  show ?case by simp
next
  case (Cons a d)
  obtain k v where a: "a = (k, v)" by (cases a)
  show ?case
  proof (cases "h = k")
    case True
    with Cons.prems a have "map_of d h = None"
      by (simp add: map_of_eq_None_iff)
    then have "map_of (filter (\<lambda>(h, files). P files) d) h = None"
      by (auto simp: map_of_eq_None_iff)
    with a True show ?thesis by simp
  next
    case False
    with Cons a show ?thesis by simp
  qed
qed

lemma find_duplicates_basic_Inr:
  assumes "fst (find_duplicates_basic w directory) = Inr duplicates"
  obtains hash_dict w' where "scan_loop w (fst (rglob w directory)) [] = (Inr hash_dict, w')"
    and "snd (rglob w directory) = None"
    and "duplicates = filter (\<lambda>(h, files). length files > 1) hash_dict"
proof (cases "scan_loop w (fst (rglob w directory)) []")
  case (Pair r w')
  show ?thesis
  proof (cases r)
    case (Inl e)
    with assms Pair show ?thesis
      by (simp add: find_duplicates_basic_def split: prod.splits)
  next
    case (Inr hash_dict)
    show ?thesis
    proof (cases "snd (rglob w directory)")
      case None
      with assms Pair Inr that [of hash_dict w'] show ?thesis
        by (cases "rglob w directory") (simp add: find_duplicates_basic_def)
    next
      case (Some e)
      with assms Pair Inr show ?thesis
        by (cases "rglob w directory") (simp add: find_duplicates_basic_def)
    qed
  qed
qed

text \<open>The list of the discovered files with a given fingerprint, in discovery order.\<close>

lemma index_lookup:
  assumes "scan_loop w ps [] = (Inr hash_dict, w')"
  shows "map_of hash_dict h =
     (let b = filter (\<lambda>p. is_file w p = Inr True \<and> fst (get_file_hash w p) = Inr h) ps
      in if b = [] then None else Some b)"
proof -
  have "no_empty_bucket hash_dict"
    using scan_loop_Inr_keys [OF assms] by (simp add: no_empty_bucket_def)
  moreover have "bucket hash_dict h = filter (\<lambda>p. is_file w p = Inr True \<and> fst (get_file_hash w p) = Inr h) ps"
    using scan_loop_Inr_bucket [OF assms, of h] by (simp add: bucket_def)
  ultimately show ?thesis
    by (simp add: map_of_bucket Let_def)
qed

lemma duplicates_lookup:
  assumes "fst (find_duplicates_basic w directory) = Inr duplicates"
  shows "map_of duplicates h =
     (let b = filter (\<lambda>p. is_file w p = Inr True \<and> fst (get_file_hash w p) = Inr h) (fst (rglob w directory))
      in if 2 \<le> length b then Some b else None)"
proof -
  from assms obtain hash_dict w' where s: "scan_loop w (fst (rglob w directory)) [] = (Inr hash_dict, w')"
    and d: "duplicates = filter (\<lambda>(h, files). length files > 1) hash_dict"
    by (rule find_duplicates_basic_Inr) blast
  have "distinct (map fst hash_dict)"
    using scan_loop_Inr_keys [OF s] by (simp add: no_empty_bucket_def)
  then show ?thesis
    unfolding d by (subst map_of_filter_keys) (auto simp: index_lookup [OF s] Let_def)
qed

lemma duplicates_distinct_keys:
  assumes "fst (find_duplicates_basic w directory) = Inr duplicates"
  shows "distinct (map fst duplicates)"
proof -
  from assms obtain hash_dict w' where s: "scan_loop w (fst (rglob w directory)) [] = (Inr hash_dict, w')"
    and d: "duplicates = filter (\<lambda>(h, files). length files > 1) hash_dict"
    by (rule find_duplicates_basic_Inr) blast
  have "distinct (map fst hash_dict)"
    using scan_loop_Inr_keys [OF s] by (simp add: no_empty_bucket_def)
  then show ?thesis
    unfolding d by (simp add: distinct_map_filter)
qed

lemma two_members: "p \<in> set xs \<Longrightarrow> q \<in> set xs \<Longrightarrow> p \<noteq> q \<Longrightarrow> 2 \<le> length xs"
proof -
  assume "p \<in> set xs" "q \<in> set xs" "p \<noteq> q"
  then have "{p, q} \<subseteq> set xs" and "card {p, q} = 2" by auto
  then have "2 \<le> card (set xs)"
    by (metis card_mono List.finite_set)
  also have "\<dots> \<le> length xs" by (rule card_length)
  finally show ?thesis .
qed



section \<open>The runs on the example trees\<close>

lemma scenario_run:
  "fst (find_duplicates_basic spec_scenario []) =
     Inr [(''5d41402abc4b2a76b9719d911017c592'', [[''x'', ''1.txt''], [''y'', ''2.txt'']])]"
  by (simp add: find_duplicates_basic_def rglob_def is_dir_def spec_scenario_def scan_loop.simps(2) is_file_def
      get_file_hash_regular hash_whole_file_hello hash_whole_file_world)


lemma spec_scenario_rglob:
  "rglob spec_scenario [] =
     ([[''x''], [''x'', ''1.txt''], [''y''], [''y'', ''2.txt''], [''z''], [''z'', ''3.txt'']], None)"
  by (simp add: rglob_def is_dir_def spec_scenario_def)

section \<open>The form of a fingerprint\<close>

lemma length_word_le_bytes: "length (word_le_bytes w) = 4"
  by (simp add: word_le_bytes_def)

lemma length_md5_digest: "length (md5_digest h) = 16"
  by (simp add: md5_digest_def length_word_le_bytes split: prod.splits)

lemma length_hex_bytes: "length (concat (map hex_byte bs)) = 2 * length bs"
  by (induction bs) (simp_all add: hex_byte_def)

lemma hex_digit_lower: "hex_digit n \<in> set ''0123456789abcdef''"
proof -
  have "n mod 16 < length ''0123456789abcdef''"
    by simp
  then have "''0123456789abcdef'' ! (n mod 16) \<in> set ''0123456789abcdef''"
    by (rule nth_mem)
  then show ?thesis
    by (simp only: hex_digit_def)
qed

lemma set_hex_bytes: "set (concat (map hex_byte bs)) \<subseteq> set ''0123456789abcdef''"
proof (induction bs)
  case Nil
  show ?case by simp
next
  case (Cons b bs)
  have "set (hex_byte b) \<subseteq> set ''0123456789abcdef''"
    using hex_digit_lower [of "unat b div 16"] hex_digit_lower [of "unat b mod 16"]
    by (simp only: hex_byte_def list.set insert_subset empty_subsetI simp_thms)
  with Cons show ?case
    by (simp only: list.map concat.simps set_append Un_subset_iff simp_thms)
qed

lemma md5_hexdigest_form:
  "length (md5_hexdigest h) = 32 \<and> set (md5_hexdigest h) \<subseteq> set ''0123456789abcdef''"
  by (simp only: md5_hexdigest_def length_hex_bytes length_md5_digest set_hex_bytes) simp

lemma get_file_hash_Inr_hexdigest:
  "fst (get_file_hash w p) = Inr s \<Longrightarrow> \<exists>h. s = md5_hexdigest h"
  by (auto simp: get_file_hash_def Let_def split: prod.splits sum.splits)

lemma index_keys_are_fingerprints:
  assumes "scan_loop w ps [] = (Inr hash_dict, w')" and "h \<in> set (map fst hash_dict)"
  shows "\<exists>p \<in> set ps. fst (get_file_hash w p) = Inr h"
proof -
  from assms(2) have "map_of hash_dict h \<noteq> None"
    by (simp add: map_of_eq_None_iff)
  then have "filter (\<lambda>p. is_file w p = Inr True \<and> fst (get_file_hash w p) = Inr h) ps \<noteq> []"
    using index_lookup [OF assms(1), of h] by (auto simp: Let_def split: if_splits)
  then show ?thesis
    by (auto simp: filter_empty_conv)
qed

lemma spec_scenario_index:
  "scan_loop spec_scenario (fst (rglob spec_scenario [])) [] =
     (Inr [(''5d41402abc4b2a76b9719d911017c592'', [[''x'', ''1.txt''], [''y'', ''2.txt'']]),
           (''7d793037a0760186574b0282f2f435e7'', [[''z'', ''3.txt'']])],
      spec_scenario\<lparr>open_log :=
        [([''x'', ''1.txt''], ''rb''), ([''y'', ''2.txt''], ''rb''), ([''z'', ''3.txt''], ''rb'')]\<rparr>)"
  by (simp add: spec_scenario_rglob)
    (simp add: spec_scenario_def scan_loop.simps(2) is_file_def
      get_file_hash_regular hash_whole_file_hello hash_whole_file_world)

section \<open>The world after a scan\<close>

lemma snd_find_duplicates_basic:
  "snd (find_duplicates_basic w directory) = snd (scan_loop w (fst (rglob w directory)) [])"
  by (simp add: find_duplicates_basic_def split: prod.splits sum.splits option.splits)

lemma snd_main_prog: "snd (main_prog w) = snd (find_duplicates_basic w [])"
  by (simp add: main_prog_def split: prod.splits sum.splits)

lemma py_open_wb_truncates:
  "fs (snd (py_open single_file [''only.txt''] ''wb'')) = [([''only.txt''], Regular [])] \<and>
   fs (snd (py_open single_file [''only.txt''] ''wb'')) \<noteq> fs single_file"
  by (simp add: py_open_def single_file_def hello_def)

section \<open>When the loop is left by an error\<close>

lemma scan_loop_first_error:
  "filter (\<lambda>p. entry_error w p \<noteq> None) ps = p # rest \<Longrightarrow>
   \<exists>e. entry_error w p = Some e \<and> fst (scan_loop w ps d) = Inl e"
proof (induction ps arbitrary: w d)
  case Nil
  then show ?case by simp
next
  case (Cons q ps)
  show ?case
  proof (cases rule: entry_cases [of w q])
    case (stat_error e)
    then have "entry_error w q = Some e" by (simp add: entry_error_def)
    with Cons.prems stat_error show ?thesis
      by (simp add: scan_loop_step_stat_error)
  next
    case not_regular
    then have "entry_error w q = None" by (simp add: entry_error_def)
    with Cons.prems have "filter (\<lambda>p. entry_error w p \<noteq> None) ps = p # rest"
      by simp
    from Cons.IH [OF this, of d] not_regular show ?thesis
      by (simp add: scan_loop_step_skip)
  next
    case (read_error e)
    then have "entry_error w q = Some e" by (simp add: entry_error_def)
    with Cons.prems read_error show ?thesis
      by (simp add: scan_loop_step_error)
  next
    case (digested h)
    let ?w = "w\<lparr>open_log := open_log w @ [(q, ''rb'')]\<rparr>"
    from digested have "entry_error w q = None" by (simp add: entry_error_def)
    with Cons.prems have "filter (\<lambda>p. entry_error ?w p \<noteq> None) ps = p # rest"
      by simp
    from Cons.IH [OF this, of "dict_append d h q"] show ?thesis
      by (simp add: scan_loop_step_file [OF digested])
  qed
qed

text \<open>The three ways in which a run can end.\<close>

lemma find_duplicates_basic_returns:
  assumes "\<And>p. p \<in> set (fst (rglob w directory)) \<Longrightarrow> entry_error w p = None"
    and "snd (rglob w directory) = None"
  shows "\<exists>duplicates. fst (find_duplicates_basic w directory) = Inr duplicates"
proof -
  obtain idx where "fst (scan_loop w (fst (rglob w directory)) []) = Inr idx"
    using scan_loop_completes [of "fst (rglob w directory)" w "[]"] assms(1) by blast
  with assms(2) show ?thesis
    by (cases "rglob w directory"; cases "scan_loop w (fst (rglob w directory)) []")
      (simp add: find_duplicates_basic_def)
qed

lemma find_duplicates_basic_entry_error:
  assumes "filter (\<lambda>p. entry_error w p \<noteq> None) (fst (rglob w directory)) = p # rest"
  shows "\<exists>e. entry_error w p = Some e \<and> fst (find_duplicates_basic w directory) = Inl e"
proof -
  obtain e where "entry_error w p = Some e"
    and "fst (scan_loop w (fst (rglob w directory)) []) = Inl e"
    using scan_loop_first_error [OF assms] by blast
  then show ?thesis
    by (cases "rglob w directory"; cases "scan_loop w (fst (rglob w directory)) []")
      (simp add: find_duplicates_basic_def)
qed

lemma find_duplicates_basic_walk_error:
  assumes "\<And>p. p \<in> set (fst (rglob w directory)) \<Longrightarrow> entry_error w p = None"
    and "snd (rglob w directory) = Some e"
  shows "fst (find_duplicates_basic w directory) = Inl e"
proof -
  obtain idx where "fst (scan_loop w (fst (rglob w directory)) []) = Inr idx"
    using scan_loop_completes [of "fst (rglob w directory)" w "[]"] assms(1) by blast
  with assms(2) show ?thesis
    by (cases "rglob w directory"; cases "scan_loop w (fst (rglob w directory)) []")
      (simp add: find_duplicates_basic_def)
qed

lemma find_duplicates_basic_Inr_clean:
  assumes "fst (find_duplicates_basic w directory) = Inr duplicates"
  shows "snd (rglob w directory) = None"
    and "p \<in> set (fst (rglob w directory)) \<Longrightarrow> entry_error w p = None"
proof -
  from assms obtain hash_dict w' where s: "scan_loop w (fst (rglob w directory)) [] = (Inr hash_dict, w')"
    and n: "snd (rglob w directory) = None"
    by (rule find_duplicates_basic_Inr)
  from n show "snd (rglob w directory) = None" .
  show "entry_error w p = None" if "p \<in> set (fst (rglob w directory))"
    using s that by (rule scan_loop_Inr_no_error)
qed

lemma denied_run:
  "find_duplicates_basic scenario_with_denied_file [] =
     (Inl PermissionError, scenario_with_denied_file\<lparr>open_log := [([''secret.bin''], ''rb'')]\<rparr>)"
  by (simp add: find_duplicates_basic_def rglob_def is_dir_def scenario_with_denied_file_def spec_scenario_def
      scan_loop.simps(2) is_file_def get_file_hash_def py_open_def)

lemma unsearchable_run:
  "find_duplicates_basic tree_with_unsearchable_directory [] =
     (Inl PermissionError,
      tree_with_unsearchable_directory\<lparr>open_log := [([''a.txt''], ''rb''), ([''b.txt''], ''rb'')]\<rparr>)"
  by (simp add: find_duplicates_basic_def rglob_def is_dir_def tree_with_unsearchable_directory_def
      scan_loop.simps(2) is_file_def ignore_error_def get_file_hash_regular)

lemma vanished_run:
  "find_duplicates_basic tree_with_vanished_directory [] =
     (Inl FileNotFoundError,
      tree_with_vanished_directory\<lparr>open_log := [([''a.txt''], ''rb''), ([''b.txt''], ''rb'')]\<rparr>)"
  by (simp add: find_duplicates_basic_def rglob_def is_dir_def tree_with_vanished_directory_def
      scan_loop.simps(2) is_file_def get_file_hash_regular)


section \<open>Members of the index\<close>


lemma index_members_fingerprint:
  assumes "scan_loop w ps [] = (Inr hash_dict, w')" and "(h, files) \<in> set hash_dict"
    and "p \<in> set files"
  shows "p \<in> set ps \<and> is_file w p = Inr True \<and> fst (get_file_hash w p) = Inr h"
proof -
  have "distinct (map fst hash_dict)"
    using scan_loop_Inr_keys [OF assms(1)] by (simp add: no_empty_bucket_def)
  with assms(2) have "map_of hash_dict h = Some files"
    by simp
  then have "files = filter (\<lambda>p. is_file w p = Inr True \<and> fst (get_file_hash w p) = Inr h) ps"
    using index_lookup [OF assms(1), of h] by (simp add: Let_def split: if_splits)
  with assms(3) show ?thesis by simp
qed


lemma grouped_files_share_fingerprint:
  assumes "fst (find_duplicates_basic w directory) = Inr duplicates"
    and "(h, files) \<in> set duplicates" and "p \<in> set files"
  shows "fst (get_file_hash w p) = Inr h"
proof -
  from assms(1) obtain hash_dict w' where s: "scan_loop w (fst (rglob w directory)) [] = (Inr hash_dict, w')"
    and d: "duplicates = filter (\<lambda>(h, files). length files > 1) hash_dict"
    by (rule find_duplicates_basic_Inr) blast
  from assms(2) d have "(h, files) \<in> set hash_dict" by simp
  from index_members_fingerprint [OF s this assms(3)] show ?thesis by simp
qed

section \<open>The report\<close>

lemma main_prog_Inr:
  "fst (find_duplicates_basic w []) = Inr duplicates \<Longrightarrow>
   fst (main_prog w) = Inr (report_lines duplicates)"
  by (cases "find_duplicates_basic w []") (simp add: main_prog_def)

lemma single_file_run: "fst (find_duplicates_basic single_file []) = Inr []"
  by (simp add: find_duplicates_basic_def rglob_def is_dir_def single_file_def scan_loop.simps(2) is_file_def
      get_file_hash_regular)

lemma spec_scenario_report:
  "fst (main_prog spec_scenario) = Inr [''Hash:'', '' - x/1.txt'', '' - y/2.txt'', ''/n'']"
  by (simp add: main_prog_Inr [OF scenario_run] report_lines_def)

section \<open>Files with the same content share a group\<close>

text \<open>
  C1: two different regular files under the scanned root whose byte contents are
  identical are members of the same group of the returned mapping, whatever their names
  and places; the group is the one of the content's fingerprint.
\<close>

theorem identical_files_same_group:
  assumes "fst (find_duplicates_basic w directory) = Inr duplicates"
    and "p \<in> set (fst (rglob w directory))" and "q \<in> set (fst (rglob w directory))" and "p \<noteq> q"
    and "map_of (fs w) p = Some (Regular content)"
    and "map_of (fs w) q = Some (Regular content)"
  shows "\<exists>files. (hash_whole_file content, files) \<in> set duplicates \<and> p \<in> set files \<and> q \<in> set files"
proof -
  let ?h = "hash_whole_file content"
  let ?b = "filter (\<lambda>p. is_file w p = Inr True \<and> fst (get_file_hash w p) = Inr ?h) (fst (rglob w directory))"
  have "p \<in> set ?b" and "q \<in> set ?b"
    using assms(2,3,5,6) by (simp_all add: get_file_hash_regular is_file_def)
  moreover from this have "2 \<le> length ?b"
    using \<open>p \<noteq> q\<close> by (rule two_members)
  then have "map_of duplicates ?h = Some ?b"
    using duplicates_lookup [OF assms(1), of ?h] by (simp add: Let_def)
  then have "(?h, ?b) \<in> set duplicates"
    by (rule map_of_SomeD)
  ultimately show ?thesis by blast
qed

theorem identical_files_same_group_witness:
  "fst (find_duplicates_basic spec_scenario []) =
     Inr [(''5d41402abc4b2a76b9719d911017c592'', [[''x'', ''1.txt''], [''y'', ''2.txt'']])] \<and>
   [''x'', ''1.txt''] \<in> set (fst (rglob spec_scenario [])) \<and>
   [''y'', ''2.txt''] \<in> set (fst (rglob spec_scenario [])) \<and>
   [''x'', ''1.txt''] \<noteq> [''y'', ''2.txt''] \<and>
   map_of (fs spec_scenario) [''x'', ''1.txt''] = Some (Regular hello) \<and>
   map_of (fs spec_scenario) [''y'', ''2.txt''] = Some (Regular hello) \<and>
   (\<exists>files. (hash_whole_file hello, files)
        \<in> set [(''5d41402abc4b2a76b9719d911017c592'', [[''x'', ''1.txt''], [''y'', ''2.txt'']])] \<and>
      [''x'', ''1.txt''] \<in> set files \<and> [''y'', ''2.txt''] \<in> set files)"
proof -
  have p: "[''x'', ''1.txt''] \<in> set (fst (rglob spec_scenario []))"
    and q: "[''y'', ''2.txt''] \<in> set (fst (rglob spec_scenario []))"
    by (simp_all add: spec_scenario_rglob)
  have ne: "[''x'', ''1.txt''] \<noteq> [''y'', ''2.txt'']"
    by simp
  have cp: "map_of (fs spec_scenario) [''x'', ''1.txt''] = Some (Regular hello)"
    and cq: "map_of (fs spec_scenario) [''y'', ''2.txt''] = Some (Regular hello)"
    by (simp_all add: spec_scenario_def)
  from identical_files_same_group [OF scenario_run p q ne cp cq] scenario_run p q ne cp cq
  show ?thesis by blast
qed

section \<open>The returned mapping is the index restricted to two or more members\<close>

text \<open>
  C2: the mapping returned by \<^verbatim>\<open>find_duplicates_basic\<close> is the full
  fingerprint-to-paths index restricted to the fingerprints whose list has two or more
  members. The index has one entry per fingerprint, and its list is the discovered files
  with that fingerprint in discovery order; an entry with two or more members is
  returned with the same list, and no other entry is returned.
\<close>

theorem duplicates_are_the_buckets_of_two_or_more:
  assumes "fst (find_duplicates_basic w directory) = Inr duplicates"
  shows "\<exists>hash_dict.
     fst (scan_loop w (fst (rglob w directory)) []) = Inr hash_dict \<and>
     distinct (map fst hash_dict) \<and>
     (\<forall>h. map_of hash_dict h =
        (let b = filter (\<lambda>p. is_file w p = Inr True \<and> fst (get_file_hash w p) = Inr h) (fst (rglob w directory))
         in if b = [] then None else Some b)) \<and>
     duplicates = filter (\<lambda>(h, files). 2 \<le> length files) hash_dict \<and>
     (\<forall>h. map_of duplicates h =
        (case map_of hash_dict h of
           None \<Rightarrow> None
         | Some files \<Rightarrow> if 2 \<le> length files then Some files else None))"
proof -
  from assms obtain hash_dict w' where s: "scan_loop w (fst (rglob w directory)) [] = (Inr hash_dict, w')"
    and d: "duplicates = filter (\<lambda>(h, files). length files > 1) hash_dict"
    by (rule find_duplicates_basic_Inr) blast
  have k: "distinct (map fst hash_dict)"
    using scan_loop_Inr_keys [OF s] by (simp add: no_empty_bucket_def)
  have gt: "(\<lambda>(h :: string, files :: path list). length files > 1) = (\<lambda>(h, files). 2 \<le> length files)"
    by auto
  have "fst (scan_loop w (fst (rglob w directory)) []) = Inr hash_dict"
    by (simp add: s)
  moreover have "\<forall>h. map_of hash_dict h =
        (let b = filter (\<lambda>p. is_file w p = Inr True \<and> fst (get_file_hash w p) = Inr h) (fst (rglob w directory))
         in if b = [] then None else Some b)"
    using index_lookup [OF s] by blast
  moreover have "duplicates = filter (\<lambda>(h, files). 2 \<le> length files) hash_dict"
    using d by (simp only: gt)
  moreover from this have "\<forall>h. map_of duplicates h =
        (case map_of hash_dict h of
           None \<Rightarrow> None
         | Some files \<Rightarrow> if 2 \<le> length files then Some files else None)"
    using map_of_filter_keys [OF k, of "\<lambda>files. 2 \<le> length files"] by simp
  ultimately show ?thesis
    using k by blast
qed

theorem duplicates_are_the_buckets_of_two_or_more_witness:
  "fst (find_duplicates_basic spec_scenario []) =
     Inr [(''5d41402abc4b2a76b9719d911017c592'', [[''x'', ''1.txt''], [''y'', ''2.txt'']])] \<and>
   fst (scan_loop spec_scenario (fst (rglob spec_scenario [])) []) =
     Inr [(''5d41402abc4b2a76b9719d911017c592'', [[''x'', ''1.txt''], [''y'', ''2.txt'']]),
          (''7d793037a0760186574b0282f2f435e7'', [[''z'', ''3.txt'']])] \<and>
   (\<exists>hash_dict.
     fst (scan_loop spec_scenario (fst (rglob spec_scenario [])) []) = Inr hash_dict \<and>
     [(''5d41402abc4b2a76b9719d911017c592'', [[''x'', ''1.txt''], [''y'', ''2.txt'']])]
       = filter (\<lambda>(h, files). 2 \<le> length files) hash_dict)"
proof -
  have "fst (scan_loop spec_scenario (fst (rglob spec_scenario [])) []) =
     Inr [(''5d41402abc4b2a76b9719d911017c592'', [[''x'', ''1.txt''], [''y'', ''2.txt'']]),
          (''7d793037a0760186574b0282f2f435e7'', [[''z'', ''3.txt'']])]"
    by (simp add: spec_scenario_rglob)
      (simp add: spec_scenario_def scan_loop.simps(2) is_file_def
        get_file_hash_regular hash_whole_file_hello hash_whole_file_world)
  with duplicates_are_the_buckets_of_two_or_more [OF scenario_run] scenario_run
  show ?thesis by blast
qed

section \<open>The chunked loop refines hashing the whole file\<close>

text \<open>
  C3: for every readable file, the fingerprint that \<^verbatim>\<open>get_file_hash\<close> computes by
  feeding successive 8192-byte chunks into the accumulator, until a read returns nothing,
  is the digest of the whole content computed in one pass.
\<close>

theorem get_file_hash_refines_whole_file:
  assumes "map_of (fs w) filepath = Some (Regular content)"
  shows "fst (get_file_hash w filepath) = Inr (hash_whole_file content)"
proof -
  let ?f = "\<lparr>data = content, pos = 0, fault = None\<rparr>"
  have opened: "fst (py_open w filepath ''rb'') = Inr ?f"
    using assms by (simp add: py_open_def Let_def)
  have "length (pending md5_new) < 64"
    by (simp add: md5_new_def)
  then have "hash_chunks ?f md5_new = Inr (md5_update md5_new (drop (pos ?f) (data ?f)))"
    by (intro hash_chunks_sound) simp_all
  then have chunks: "hash_chunks ?f md5_new = Inr (md5_update md5_new content)"
    by simp
  have "md5_digest (md5_update md5_new content) = md5_oneshot content"
    by (rule md5_digest_oneshot)
  then have whole: "md5_hexdigest (md5_update md5_new content) = hash_whole_file content"
    by (simp add: md5_hexdigest_def hash_whole_file_def)
  from opened chunks whole show ?thesis
    by (cases "py_open w filepath ''rb''") (simp add: get_file_hash_def)
qed

theorem get_file_hash_refines_whole_file_witness:
  "map_of (fs spec_scenario) [''x'', ''1.txt''] = Some (Regular hello) \<and>
   fst (get_file_hash spec_scenario [''x'', ''1.txt'']) = Inr ''5d41402abc4b2a76b9719d911017c592''"
proof -
  have h: "map_of (fs spec_scenario) [''x'', ''1.txt''] = Some (Regular hello)"
    by (simp add: spec_scenario_def)
  from get_file_hash_refines_whole_file [OF h] h show ?thesis
    by (simp add: hash_whole_file_hello)
qed

section \<open>Empty files\<close>




section \<open>Fingerprints have a fixed width\<close>

text \<open>
  C10: for every readable file \<^verbatim>\<open>get_file_hash\<close> returns a string of exactly 32
  lowercase hexadecimal characters; every fingerprint that a run puts into its index has
  this form, whatever the size and content of the file.
\<close>

theorem fingerprint_is_32_hex_digits:
  "(map_of (fs w) filepath = Some (Regular content) \<longrightarrow>
      (\<exists>s. fst (get_file_hash w filepath) = Inr s \<and> length s = 32 \<and>
            set s \<subseteq> set ''0123456789abcdef'')) \<and>
   (scan_loop w ps [] = (Inr hash_dict, w') \<longrightarrow>
      (\<forall>h \<in> set (map fst hash_dict). length h = 32 \<and> set h \<subseteq> set ''0123456789abcdef''))"
proof (rule conjI; rule impI)
  assume "map_of (fs w) filepath = Some (Regular content)"
  then have "fst (get_file_hash w filepath) = Inr (hash_whole_file content)"
    by (simp add: get_file_hash_regular)
  moreover have "length (hash_whole_file content) = 32 \<and>
      set (hash_whole_file content) \<subseteq> set ''0123456789abcdef''"
    using md5_hexdigest_form [of "md5_update md5_new content"]
    by (simp only: md5_hexdigest_whole)
  ultimately show "\<exists>s. fst (get_file_hash w filepath) = Inr s \<and> length s = 32 \<and>
            set s \<subseteq> set ''0123456789abcdef''"
    by blast
next
  assume s: "scan_loop w ps [] = (Inr hash_dict, w')"
  show "\<forall>h \<in> set (map fst hash_dict). length h = 32 \<and> set h \<subseteq> set ''0123456789abcdef''"
  proof (rule ballI)
    fix h
    assume "h \<in> set (map fst hash_dict)"
    with s obtain p where "fst (get_file_hash w p) = Inr h"
      using index_keys_are_fingerprints by blast
    then obtain c where "h = md5_hexdigest c"
      using get_file_hash_Inr_hexdigest by blast
    then show "length h = 32 \<and> set h \<subseteq> set ''0123456789abcdef''"
      using md5_hexdigest_form [of c] by (simp only:)
  qed
qed

theorem fingerprint_is_32_hex_digits_witness:
  "map_of (fs spec_scenario) [''z'', ''3.txt''] = Some (Regular world_bytes) \<and>
   fst (get_file_hash spec_scenario [''z'', ''3.txt'']) = Inr ''7d793037a0760186574b0282f2f435e7'' \<and>
   (\<exists>s. fst (get_file_hash spec_scenario [''z'', ''3.txt'']) = Inr s \<and> length s = 32 \<and>
        set s \<subseteq> set ''0123456789abcdef'') \<and>
   set (map fst [(''5d41402abc4b2a76b9719d911017c592'', [[''x'', ''1.txt''], [''y'', ''2.txt'']]),
                 (''7d793037a0760186574b0282f2f435e7'', [[''z'', ''3.txt'']])])
     = {''5d41402abc4b2a76b9719d911017c592'', ''7d793037a0760186574b0282f2f435e7''} \<and>
   length ''5d41402abc4b2a76b9719d911017c592'' = 32 \<and>
   set ''5d41402abc4b2a76b9719d911017c592'' \<subseteq> set ''0123456789abcdef''"
proof -
  have z: "map_of (fs spec_scenario) [''z'', ''3.txt''] = Some (Regular world_bytes)"
    by (simp add: spec_scenario_def)
  note t = fingerprint_is_32_hex_digits [of spec_scenario "[''z'', ''3.txt'']" world_bytes
      "fst (rglob spec_scenario [])" _ _]
  from t z have a: "\<exists>s. fst (get_file_hash spec_scenario [''z'', ''3.txt'']) = Inr s \<and> length s = 32 \<and>
        set s \<subseteq> set ''0123456789abcdef''"
    by blast
  from t spec_scenario_index
  have b: "\<forall>h \<in> set (map fst [(''5d41402abc4b2a76b9719d911017c592'', [[''x'', ''1.txt''], [''y'', ''2.txt'']]),
                 (''7d793037a0760186574b0282f2f435e7'', [[''z'', ''3.txt'']])]).
      length h = 32 \<and> set h \<subseteq> set ''0123456789abcdef''"
    by blast
  have c: "fst (get_file_hash spec_scenario [''z'', ''3.txt'']) = Inr ''7d793037a0760186574b0282f2f435e7''"
    using z by (simp add: get_file_hash_regular hash_whole_file_world)
  from b have "length ''5d41402abc4b2a76b9719d911017c592'' = 32 \<and>
   set ''5d41402abc4b2a76b9719d911017c592'' \<subseteq> set ''0123456789abcdef''"
    by simp
  with a c z show ?thesis by simp
qed

section \<open>The scan leaves the filesystem unchanged\<close>

text \<open>
  C9: \<^verbatim>\<open>get_file_hash\<close> and \<^verbatim>\<open>find_duplicates_basic\<close> never change the
  filesystem. Each call of \<^verbatim>\<open>get_file_hash\<close> opens its file once, in mode
  \<^verbatim>\<open>"rb"\<close>; a scan opens discovered entries only, each in mode \<^verbatim>\<open>"rb"\<close>; and
  the tree after the scan, or after the whole script, is the tree before it, also when
  the scan ends in an error.
\<close>

theorem scan_leaves_filesystem_unchanged:
  "fs (snd (get_file_hash w filepath)) = fs w \<and>
   open_log (snd (get_file_hash w filepath)) = open_log w @ [(filepath, ''rb'')] \<and>
   fs (snd (find_duplicates_basic w directory)) = fs w \<and>
   (\<exists>opened. set opened \<subseteq> set (fst (rglob w directory)) \<and>
      open_log (snd (find_duplicates_basic w directory))
        = open_log w @ map (\<lambda>p. (p, ''rb'')) opened) \<and>
   fs (snd (main_prog w)) = fs w"
proof -
  have "fs (snd (get_file_hash w filepath)) = fs w"
    and "open_log (snd (get_file_hash w filepath)) = open_log w @ [(filepath, ''rb'')]"
    by (simp_all add: snd_get_file_hash)
  moreover have "fs (snd (find_duplicates_basic w directory)) = fs w"
    by (simp add: snd_find_duplicates_basic scan_loop_fs)
  moreover have "\<exists>opened. set opened \<subseteq> set (fst (rglob w directory)) \<and>
      open_log (snd (find_duplicates_basic w directory))
        = open_log w @ map (\<lambda>p. (p, ''rb'')) opened"
    using scan_loop_open_log [of "fst (rglob w directory)" w "[]"]
    by (simp only: snd_find_duplicates_basic)
  moreover have "fs (snd (main_prog w)) = fs w"
    by (simp add: snd_main_prog snd_find_duplicates_basic scan_loop_fs)
  ultimately show ?thesis by blast
qed

section \<open>A read error ends the run\<close>

text \<open>
  C4 says that a file that cannot be read is skipped and recorded in a diagnostics list,
  and that the run goes on over the remaining files to its result. The code has no
  handler around \<^verbatim>\<open>get_file_hash\<close> and no diagnostics list: in the scenario with a
  file that may not be opened, the run ends with that file's error, and no later file is
  opened.
\<close>

theorem read_error_aborts_run_counterexample:
  "fst (find_duplicates_basic scenario_with_denied_file []) = Inl PermissionError \<and>
   open_log (snd (find_duplicates_basic scenario_with_denied_file [])) = [([''secret.bin''], ''rb'')]"
  by (simp add: denied_run)

text \<open>
  C4, as the code has it: a read error while digesting one file is not recovered. A
  regular file that is not readable makes \<^verbatim>\<open>get_file_hash\<close> raise. The run ends at
  the first discovered entry on which \<^verbatim>\<open>is_file\<close> or \<^verbatim>\<open>get_file_hash\<close> raises,
  with that error and without a result. When no entry raises, the run ends with the
  error of the traversal if the traversal raises, and returns its result otherwise.
\<close>

theorem read_error_propagates:
  "(is_file w p = Inr True \<and> \<not> readable w p \<longrightarrow>
      (\<exists>e. fst (get_file_hash w p) = Inl e \<and> entry_error w p = Some e)) \<and>
   (filter (\<lambda>p. entry_error w p \<noteq> None) (fst (rglob w directory)) = p # rest \<longrightarrow>
      (\<exists>e. entry_error w p = Some e \<and> fst (find_duplicates_basic w directory) = Inl e)) \<and>
   (filter (\<lambda>p. entry_error w p \<noteq> None) (fst (rglob w directory)) = [] \<longrightarrow>
      (case snd (rglob w directory) of
         Some e \<Rightarrow> fst (find_duplicates_basic w directory) = Inl e
       | None \<Rightarrow> (\<exists>duplicates. fst (find_duplicates_basic w directory) = Inr duplicates)))"
proof (intro conjI impI)
  assume a: "is_file w p = Inr True \<and> \<not> readable w p"
  then have "\<not> (\<exists>h. fst (get_file_hash w p) = Inr h)"
    by (simp add: get_file_hash_Inr_iff)
  then obtain e where e: "fst (get_file_hash w p) = Inl e"
    by (cases "fst (get_file_hash w p)") auto
  with a have "entry_error w p = Some e"
    by (simp add: entry_error_def)
  with e show "\<exists>e. fst (get_file_hash w p) = Inl e \<and> entry_error w p = Some e"
    by blast
next
  assume "filter (\<lambda>p. entry_error w p \<noteq> None) (fst (rglob w directory)) = p # rest"
  then show "\<exists>e. entry_error w p = Some e \<and> fst (find_duplicates_basic w directory) = Inl e"
    by (rule find_duplicates_basic_entry_error)
next
  assume "filter (\<lambda>p. entry_error w p \<noteq> None) (fst (rglob w directory)) = []"
  then have clean: "entry_error w q = None" if "q \<in> set (fst (rglob w directory))" for q
    using that by (auto simp: filter_empty_conv)
  show "case snd (rglob w directory) of
         Some e \<Rightarrow> fst (find_duplicates_basic w directory) = Inl e
       | None \<Rightarrow> (\<exists>duplicates. fst (find_duplicates_basic w directory) = Inr duplicates)"
  proof (cases "snd (rglob w directory)")
    case None
    with find_duplicates_basic_returns [of w directory] clean show ?thesis
      by simp
  next
    case (Some e)
    with find_duplicates_basic_walk_error [of w directory e] clean show ?thesis
      by simp
  qed
qed

theorem read_error_propagates_witness:
  "is_file scenario_with_denied_file [''secret.bin''] = Inr True \<and>
   \<not> readable scenario_with_denied_file [''secret.bin''] \<and>
   fst (get_file_hash scenario_with_denied_file [''secret.bin'']) = Inl PermissionError \<and>
   filter (\<lambda>p. entry_error scenario_with_denied_file p \<noteq> None)
     (fst (rglob scenario_with_denied_file [])) = [[''secret.bin'']] \<and>
   fst (find_duplicates_basic scenario_with_denied_file []) = Inl PermissionError \<and>
   filter (\<lambda>p. entry_error tree_with_unsearchable_directory p \<noteq> None)
     (fst (rglob tree_with_unsearchable_directory [])) = [[''noexec'', ''sub'']] \<and>
   is_file tree_with_unsearchable_directory [''noexec'', ''sub''] = Inl PermissionError \<and>
   fst (find_duplicates_basic tree_with_unsearchable_directory []) = Inl PermissionError \<and>
   filter (\<lambda>p. entry_error tree_with_vanished_directory p \<noteq> None)
     (fst (rglob tree_with_vanished_directory [])) = [] \<and>
   snd (rglob tree_with_vanished_directory []) = Some FileNotFoundError \<and>
   fst (find_duplicates_basic tree_with_vanished_directory []) = Inl FileNotFoundError \<and>
   filter (\<lambda>p. entry_error spec_scenario p \<noteq> None) (fst (rglob spec_scenario [])) = [] \<and>
   snd (rglob spec_scenario []) = None \<and>
   (\<exists>duplicates. fst (find_duplicates_basic spec_scenario []) = Inr duplicates)"
proof -
  have s1: "is_file scenario_with_denied_file [''secret.bin''] = Inr True"
    and s2: "\<not> readable scenario_with_denied_file [''secret.bin'']"
    by (simp_all add: scenario_with_denied_file_def is_file_def readable_def)
  have s3: "fst (get_file_hash scenario_with_denied_file [''secret.bin'']) = Inl PermissionError"
    by (simp add: scenario_with_denied_file_def get_file_hash_def py_open_def)
  have d: "filter (\<lambda>p. entry_error scenario_with_denied_file p \<noteq> None)
     (fst (rglob scenario_with_denied_file [])) = [[''secret.bin'']]"
    by (simp add: rglob_def is_dir_def scenario_with_denied_file_def spec_scenario_def entry_error_def
        is_file_def get_file_hash_regular)
      (simp add: get_file_hash_def py_open_def)
  have u: "filter (\<lambda>p. entry_error tree_with_unsearchable_directory p \<noteq> None)
     (fst (rglob tree_with_unsearchable_directory [])) = [[''noexec'', ''sub'']]"
    by (simp add: rglob_def is_dir_def tree_with_unsearchable_directory_def entry_error_def
        is_file_def ignore_error_def get_file_hash_regular)
  have u2: "is_file tree_with_unsearchable_directory [''noexec'', ''sub''] = Inl PermissionError"
    by (simp add: tree_with_unsearchable_directory_def is_file_def ignore_error_def)
  have v: "filter (\<lambda>p. entry_error tree_with_vanished_directory p \<noteq> None)
     (fst (rglob tree_with_vanished_directory [])) = []"
    and v2: "snd (rglob tree_with_vanished_directory []) = Some FileNotFoundError"
    by (simp_all add: rglob_def is_dir_def tree_with_vanished_directory_def entry_error_def
        is_file_def get_file_hash_regular)
  have c: "filter (\<lambda>p. entry_error spec_scenario p \<noteq> None) (fst (rglob spec_scenario [])) = []"
    and c2: "snd (rglob spec_scenario []) = None"
    by (simp_all add: spec_scenario_rglob)
      (simp add: spec_scenario_def entry_error_def is_file_def get_file_hash_regular)
  from read_error_propagates [of scenario_with_denied_file "[''secret.bin'']" "[]" "[]"] d s3
  have r1: "fst (find_duplicates_basic scenario_with_denied_file []) = Inl PermissionError"
    by (auto simp: entry_error_def s1)
  from read_error_propagates [of tree_with_unsearchable_directory "[''noexec'', ''sub'']" "[]" "[]"] u u2
  have r2: "fst (find_duplicates_basic tree_with_unsearchable_directory []) = Inl PermissionError"
    by (auto simp: entry_error_def)
  from read_error_propagates [of tree_with_vanished_directory _ "[]"] v v2
  have r3: "fst (find_duplicates_basic tree_with_vanished_directory []) = Inl FileNotFoundError"
    by simp
  from read_error_propagates [of spec_scenario _ "[]"] c c2
  have r4: "\<exists>duplicates. fst (find_duplicates_basic spec_scenario []) = Inr duplicates"
    by simp
  from s1 s2 s3 d r1 u u2 r2 v v2 r3 c c2 r4 show ?thesis
    by (intro conjI)
qed

section \<open>Every file is hashed once and indexed once\<close>



section \<open>The printed report\<close>

text \<open>
  C8 says that a scan without duplicate groups prints an explicit message. The script
  has no branch for that case: on a tree with a single file it prints nothing.
\<close>

theorem no_duplicates_prints_nothing_counterexample:
  "fst (find_duplicates_basic single_file []) = Inr [] \<and> fst (main_prog single_file) = Inr []"
  by (simp add: single_file_run main_prog_Inr [OF single_file_run] report_lines_def)

text \<open>
  C8, as the code has it: the printed report is, for each duplicate group in the order of
  the returned mapping, one heading line, then every member path on a line of its own,
  then one closing line; and when the scan finds no duplicate group, nothing is
  printed.
\<close>

theorem report_lists_members_per_group:
  assumes "fst (find_duplicates_basic w []) = Inr duplicates"
  shows "(\<exists>header closing.
      fst (main_prog w) =
        Inr (concat (map (\<lambda>(file_hash, files).
               header file_hash # map (\<lambda>f. '' - '' @ path_str f) files @ [closing file_hash])
             duplicates))) \<and>
    (duplicates = [] \<longrightarrow> fst (main_prog w) = Inr [])"
proof
  have r: "fst (main_prog w) =
        Inr (concat (map (\<lambda>(file_hash, files).
               ''Hash:'' # map (\<lambda>f. '' - '' @ path_str f) files @ [''/n''])
             duplicates))"
    using main_prog_Inr [OF assms] by (simp add: report_lines_def)
  show "\<exists>header closing.
      fst (main_prog w) =
        Inr (concat (map (\<lambda>(file_hash, files).
               header file_hash # map (\<lambda>f. '' - '' @ path_str f) files @ [closing file_hash])
             duplicates))"
    by (rule exI [where x = "\<lambda>_. ''Hash:''"], rule exI [where x = "\<lambda>_. ''/n''"]) (rule r)
  show "duplicates = [] \<longrightarrow> fst (main_prog w) = Inr []"
    using main_prog_Inr [OF assms] by (simp add: report_lines_def)
qed

theorem report_lists_members_per_group_witness:
  "fst (find_duplicates_basic spec_scenario []) =
     Inr [(''5d41402abc4b2a76b9719d911017c592'', [[''x'', ''1.txt''], [''y'', ''2.txt'']])] \<and>
   fst (main_prog spec_scenario) = Inr [''Hash:'', '' - x/1.txt'', '' - y/2.txt'', ''/n''] \<and>
   fst (find_duplicates_basic single_file []) = Inr [] \<and>
   fst (main_prog single_file) = Inr [] \<and>
   (\<exists>header closing.
      fst (main_prog spec_scenario) =
        Inr (concat (map (\<lambda>(file_hash, files).
               header file_hash # map (\<lambda>f. '' - '' @ path_str f) files @ [closing file_hash])
             [(''5d41402abc4b2a76b9719d911017c592'', [[''x'', ''1.txt''], [''y'', ''2.txt'']])])))"
proof -
  from report_lists_members_per_group [OF scenario_run]
  have "\<exists>header closing.
      fst (main_prog spec_scenario) =
        Inr (concat (map (\<lambda>(file_hash, files).
               header file_hash # map (\<lambda>f. '' - '' @ path_str f) files @ [closing file_hash])
             [(''5d41402abc4b2a76b9719d911017c592'', [[''x'', ''1.txt''], [''y'', ''2.txt'']])]))"
    by (rule conjunct1)
  moreover from report_lists_members_per_group [OF single_file_run]
  have "fst (main_prog single_file) = Inr []"
    by simp
  ultimately show ?thesis
    using scenario_run spec_scenario_report single_file_run by (intro conjI)
qed

end
